theory Spec2Isabelle
  imports Main
begin

section \<open>The graph table of pysynphot (tables.py)\<close>

subsection \<open>Errors\<close>

text \<open>
  The exceptions raised in \<^verbatim>\<open>tables.py\<close>. The two \<^verbatim>\<open>ValueError\<close>s of
  \<^verbatim>\<open>GetComponentsFromGT\<close> differ in their message only; they are kept apart by
  constructor. \<^verbatim>\<open>KeyError\<close> carries the number of matches and the mode,
  \<open>ValueError_Incomplete\<close> the mode list as passed in, \<open>ValueError_Unused\<close> the set
  \<^verbatim>\<open>inmodes.difference(used_modes)\<close>.
\<close>

datatype error =
    TypeError
  | KeyError nat string
  | ValueError_Incomplete "string list"
  | ValueError_Unused "string set"

subsection \<open>The graph table\<close>

text \<open>
  One row of extension 1 of the graph file: row \<open>i\<close> holds \<^verbatim>\<open>innodes[i]\<close>,
  \<^verbatim>\<open>keywords[i]\<close>, \<^verbatim>\<open>outnodes[i]\<close>, \<^verbatim>\<open>compnames[i]\<close> and \<^verbatim>\<open>thcompnames[i]\<close>.
  The five columns are read from one table, so they have one length; the table is the list
  of its rows, in file order.
\<close>

record edge =
  e_innode :: int
  e_keyword :: string
  e_outnode :: int
  e_compname :: string
  e_thcompname :: string

text \<open>\<^verbatim>\<open>str.lower\<close> on the ASCII strings of a FITS column.\<close>

definition lower_char :: "char \<Rightarrow> char" where
  "lower_char c =
     (if (65::nat) \<le> of_char c \<and> of_char c \<le> (90::nat) then char_of (of_char c + (32::nat)) else c)"

definition lower :: "string \<Rightarrow> string" where
  "lower s = map lower_char s"

text \<open>
  \<^verbatim>\<open>GraphTable.__init__\<close>: \<^verbatim>\<open>GFile is None\<close> raises \<^verbatim>\<open>TypeError\<close>; otherwise the rows
  read from the file are kept, every keyword forced to lower case.
\<close>

definition GraphTable_init :: "string option \<Rightarrow> edge list \<Rightarrow> error + edge list" where
  "GraphTable_init GFile rows =
     (case GFile of
        None \<Rightarrow> Inl TypeError
      | Some _ \<Rightarrow> Inr (map (\<lambda>r. r\<lparr>e_keyword := lower (e_keyword r)\<rparr>) rows))"

subsection \<open>Comparing a keyword column with a string\<close>

text \<open>
  \<^verbatim>\<open>self.keywords\<close> is a column of a FITS table, a numpy character array. Its \<^verbatim>\<open>==\<close>,
  and with it \<^verbatim>\<open>in\<close>, compares two strings after removing the white space at their
  ends: the ASCII white space characters (blank, tab, line feed, vertical tab, form feed,
  carriage return) and NUL. Letter case is compared as it is.
\<close>

definition is_space :: "char \<Rightarrow> bool" where
  "is_space c \<longleftrightarrow> (of_char c :: nat) \<in> set [0, 9, 10, 11, 12, 13, 32]"

definition rstrip :: "string \<Rightarrow> string" where
  "rstrip s = rev (dropWhile is_space (rev s))"

definition chararray_eq :: "string \<Rightarrow> string \<Rightarrow> bool" where
  "chararray_eq a b \<longleftrightarrow> rstrip a = rstrip b"

subsection \<open>GetComponentsFromGT\<close>

text \<open>
  The local variables of \<^verbatim>\<open>GetComponentsFromGT\<close> that live across iterations. A component
  is \<^verbatim>\<open>None\<close> when the node has no default row and no mode matched.
\<close>

record trav =
  innode :: int
  outnode :: int
  components :: "string option list"
  thcomponents :: "string option list"
  used_modes :: "string set"
  count :: nat

text \<open>\<^verbatim>\<open>nodes = N.where(self.innodes == innode)\<close>: the rows leaving a node, in table order.\<close>

definition nodes_of :: "edge list \<Rightarrow> int \<Rightarrow> edge list" where
  "nodes_of tbl n = filter (\<lambda>e. e_innode e = n) tbl"

text \<open>
  The provisional outcome of a step: the first row whose keyword the column comparison
  finds equal to \<^verbatim>\<open>'default'\<close> (\<^verbatim>\<open>N.where(...)[0][0]\<close>), or \<^verbatim>\<open>outnode = -2\<close> and no
  component.
\<close>

type_synonym choice = "int \<times> string option \<times> string option"

definition default_choice :: "edge list \<Rightarrow> choice" where
  "default_choice nodes =
     (case filter (\<lambda>e. chararray_eq (e_keyword e) ''default'') nodes of
        [] \<Rightarrow> (- 2, None, None)
      | d # _ \<Rightarrow> (e_outnode d, Some (e_compname d), Some (e_thcompname d)))"

text \<open>
  \<^verbatim>\<open>for mode in modes\<close>: a mode found among the keywords of the node
  (\<^verbatim>\<open>mode in self.keywords[nodes]\<close>, the comparison of the column) is recorded as used;
  more than one matching row raises \<^verbatim>\<open>KeyError\<close>, a single one overwrites the outcome.
  Under the membership test the list of matching rows is never empty; that branch of the
  case leaves the outcome as it is.
\<close>

fun match_modes :: "edge list \<Rightarrow> string list \<Rightarrow> choice \<times> string set \<Rightarrow> error + choice \<times> string set" where
  "match_modes nodes [] acc = Inr acc"
| "match_modes nodes (mode # modes) (ch, used) =
     (if list_ex (\<lambda>e. chararray_eq (e_keyword e) mode) nodes then
        (case filter (\<lambda>e. chararray_eq (e_keyword e) mode) nodes of
           [] \<Rightarrow> match_modes nodes modes (ch, used)
         | [e] \<Rightarrow> match_modes nodes modes
                    ((e_outnode e, Some (e_compname e), Some (e_thcompname e)), insert mode used)
         | index \<Rightarrow> Inl (KeyError (length index) mode))
      else match_modes nodes modes (ch, used))"

datatype 'a outcome = Break 'a | Continue 'a

fun state_of :: "'a outcome \<Rightarrow> 'a" where
  "state_of (Break s) = s"
| "state_of (Continue s) = s"

text \<open>One pass through the body of the \<^verbatim>\<open>while\<close> loop.\<close>

definition body :: "edge list \<Rightarrow> string list \<Rightarrow> trav \<Rightarrow> error + trav outcome" where
  "body tbl modes st =
     (let previous_outnode = outnode st;
          nodes = nodes_of tbl (innode st)
      in if nodes = [] then Inr (Break st)
         else
           (case match_modes nodes modes (default_choice nodes, used_modes st) of
              Inl err \<Rightarrow> Inl err
            | Inr ((out, component, thcomponent), used) \<Rightarrow>
                (let st' = st\<lparr>innode := out, outnode := out,
                              components := components st @ [component],
                              thcomponents := thcomponents st @ [thcomponent],
                              used_modes := used\<rparr>
                 in if out = previous_outnode then
                      (let st'' = st'\<lparr>count := count st + 1\<rparr>
                       in if count st'' > 3 then Inr (Break st'') else Inr (Continue st''))
                    else Inr (Continue st'))))"

text \<open>
  \<^verbatim>\<open>while outnode >= 0\<close>. The loop has no bound of its own, so it is a partial function:
  \<open>None\<close> is a run that never leaves the loop.
\<close>

partial_function (option) while_loop :: "edge list \<Rightarrow> string list \<Rightarrow> trav \<Rightarrow> (error + trav) option" where
  "while_loop tbl modes st =
     (if outnode st \<ge> 0 then
        (case body tbl modes st of
           Inl err \<Rightarrow> Some (Inl err)
         | Inr (Break st') \<Rightarrow> Some (Inr st')
         | Inr (Continue st') \<Rightarrow> while_loop tbl modes st')
      else Some (Inr st))"

declare while_loop.simps [code]

definition init_trav :: "int \<Rightarrow> trav" where
  "init_trav n = \<lparr>innode = n, outnode = 0, components = [], thcomponents = [],
                  used_modes = {}, count = 0\<rparr>"

definition GetComponentsFromGT ::
  "edge list \<Rightarrow> string list \<Rightarrow> int \<Rightarrow> (error + string option list \<times> string option list) option" where
  "GetComponentsFromGT tbl modes n =
     (case while_loop tbl modes (init_trav n) of
        None \<Rightarrow> None
      | Some (Inl err) \<Rightarrow> Some (Inl err)
      | Some (Inr st) \<Rightarrow>
          (if outnode st < 0 then Some (Inl (ValueError_Incomplete modes))
           else if set modes \<noteq> used_modes st
             then Some (Inl (ValueError_Unused (set modes - used_modes st)))
           else Some (Inr (components st, thcomponents st))))"

text \<open>
  The states in which the loop test is evaluated. \<open>traversal tbl modes st0 outs st\<close>: started
  in \<open>st0\<close>, the loop has gone through its body \<open>length outs\<close> times without raising or
  breaking, step \<open>i\<close> ended with \<^verbatim>\<open>outnode\<close> \<open>outs ! i\<close>, and the state is now \<open>st\<close>.
\<close>

inductive traversal :: "edge list \<Rightarrow> string list \<Rightarrow> trav \<Rightarrow> int list \<Rightarrow> trav \<Rightarrow> bool"
  for tbl modes st0 where
    traversal_start: "traversal tbl modes st0 [] st0"
  | traversal_step: "traversal tbl modes st0 outs st \<Longrightarrow> 0 \<le> outnode st \<Longrightarrow>
       body tbl modes st = Inr (Continue st') \<Longrightarrow>
       traversal tbl modes st0 (outs @ [outnode st']) st'"


subsection \<open>Example tables\<close>

definition mk_edge :: "int \<Rightarrow> string \<Rightarrow> int \<Rightarrow> string \<Rightarrow> string \<Rightarrow> edge" where
  "mk_edge i k out c t =
     \<lparr>e_innode = i, e_keyword = k, e_outnode = out, e_compname = c, e_thcompname = t\<rparr>"

text \<open>
  The four-edge graph of the specification's scenario. The scenario names no thermal
  components; they are \<open>tA\<close> to \<open>tD\<close> here.
\<close>

definition scenario_graph :: "edge list" where
  "scenario_graph =
     [mk_edge 1 ''default'' 2 ''A'' ''tA'', mk_edge 1 ''acs'' 3 ''B'' ''tB'',
      mk_edge 2 ''default'' (- 1) ''C'' ''tC'', mk_edge 3 ''default'' (- 1) ''D'' ''tD'']"

text \<open>The same graph with its two last edges leading to node 4, which has no row.\<close>

definition scenario_graph_open :: "edge list" where
  "scenario_graph_open =
     [mk_edge 1 ''default'' 2 ''A'' ''tA'', mk_edge 1 ''acs'' 3 ''B'' ''tB'',
      mk_edge 2 ''default'' 4 ''C'' ''tC'', mk_edge 3 ''default'' 4 ''D'' ''tD'']"

text \<open>Two nodes whose default edges lead to each other.\<close>

definition cycle_graph :: "edge list" where
  "cycle_graph = [mk_edge 1 ''default'' 2 ''A'' ''tA'', mk_edge 2 ''default'' 1 ''B'' ''tB'']"

definition on_cycle :: "trav \<Rightarrow> bool" where
  "on_cycle st \<longleftrightarrow>
     (innode st = 1 \<and> (outnode st = 0 \<or> outnode st = 1)) \<or> (innode st = 2 \<and> outnode st = 2)"

text \<open>
  A table with a step into node 0, a step out of it and a self-loop at node 7: from
  node 5 the \<^verbatim>\<open>outnode\<close>s are 0, 7, 7, 7, 7.
\<close>

definition self_loop_graph :: "edge list" where
  "self_loop_graph =
     [mk_edge 5 ''default'' 0 ''P'' ''tP'', mk_edge 0 ''default'' 7 ''Q'' ''tQ'',
      mk_edge 7 ''default'' 7 ''R'' ''tR'']"

text \<open>A rank on the nodes of \<open>self_loop_graph\<close> that falls along its edges 5 to 0 and 0 to 7.\<close>

definition rank_of :: "int \<Rightarrow> nat" where
  "rank_of n = (if n = 5 then 2 else if n = 0 then 1 else 0)"

text \<open>Node 2 has two rows with the keyword \<open>wfc\<close>.\<close>

definition ambiguous_graph :: "edge list" where
  "ambiguous_graph =
     [mk_edge 1 ''default'' 2 ''A'' ''tA'', mk_edge 2 ''wfc'' 3 ''B'' ''tB'',
      mk_edge 2 ''wfc'' 4 ''C'' ''tC'']"

text \<open>A default row into node 2, which has no row.\<close>

definition open_end_graph :: "edge list" where
  "open_end_graph = [mk_edge 1 ''default'' 2 ''A'' ''tA'']"

text \<open>Node 2 has a row, but none with the keyword \<open>default\<close>.\<close>

definition dead_end_graph :: "edge list" where
  "dead_end_graph = [mk_edge 1 ''default'' 2 ''A'' ''tA'', mk_edge 2 ''wfc'' 3 ''B'' ''tB'']"

text \<open>Node 1 has two default rows.\<close>

definition two_defaults_graph :: "edge list" where
  "two_defaults_graph =
     [mk_edge 1 ''acs'' 5 ''X'' ''tX'', mk_edge 1 ''default'' 2 ''A'' ''tA'',
      mk_edge 1 ''default'' 3 ''B'' ''tB'']"

text \<open>Node 1 has a default row and a row for each of two keywords.\<close>

definition override_graph :: "edge list" where
  "override_graph =
     [mk_edge 1 ''default'' 2 ''A'' ''tA'', mk_edge 1 ''acs'' 3 ''B'' ''tB'',
      mk_edge 1 ''hrc'' 4 ''C'' ''tC'']"

code_pred traversal .

section \<open>Properties of one step\<close>

lemma default_choice_cases:
  "default_choice nodes = (- 2, None, None) \<or>
   (\<exists>e\<in>set nodes. default_choice nodes = (e_outnode e, Some (e_compname e), Some (e_thcompname e)))"
proof (cases "filter (\<lambda>e. chararray_eq (e_keyword e) ''default'') nodes")
  case Nil
  then show ?thesis by (simp add: default_choice_def)
next
  case (Cons d ds)
  then have "d \<in> set (filter (\<lambda>e. chararray_eq (e_keyword e) ''default'') nodes)" by simp
  then have "d \<in> set nodes" by simp
  with Cons show ?thesis by (auto simp: default_choice_def)
qed

lemma filter_single_mem: "filter P xs = [e] \<Longrightarrow> e \<in> set xs \<and> P e"
proof -
  assume "filter P xs = [e]"
  then have "e \<in> set (filter P xs)" by simp
  then show ?thesis by simp
qed

lemma match_modes_result:
  "match_modes nodes modes (ch, used) = Inr (ch', used') \<Longrightarrow>
     (ch' = ch \<or> (\<exists>e\<in>set nodes. ch' = (e_outnode e, Some (e_compname e), Some (e_thcompname e))))
     \<and> used \<subseteq> used' \<and> used' \<subseteq> used \<union> set modes"
proof (induction modes arbitrary: ch used)
  case Nil
  then show ?case by simp
next
  case (Cons m ms)
  show ?case
  proof (cases "list_ex (\<lambda>e. chararray_eq (e_keyword e) m) nodes")
    case False
    with Cons.prems have "match_modes nodes ms (ch, used) = Inr (ch', used')" by simp
    from Cons.IH [OF this] show ?thesis by auto
  next
    case True
    show ?thesis
    proof (cases "filter (\<lambda>e. chararray_eq (e_keyword e) m) nodes")
      case Nil
      with True Cons.prems have "match_modes nodes ms (ch, used) = Inr (ch', used')" by simp
      from Cons.IH [OF this] show ?thesis by auto
    next
      case (Cons e es)
      note fl = this
      show ?thesis
      proof (cases es)
        case Nil
        with fl have f1: "filter (\<lambda>e. chararray_eq (e_keyword e) m) nodes = [e]" by simp
        with True Cons.prems
        have "match_modes nodes ms ((e_outnode e, Some (e_compname e), Some (e_thcompname e)), insert m used)
                = Inr (ch', used')" by simp
        from Cons.IH [OF this] filter_single_mem [OF f1] show ?thesis by auto
      next
        case (Cons e' es')
        with fl True Cons.prems show ?thesis by simp
      qed
    qed
  qed
qed

lemma body_Inr:
  assumes "body tbl modes st = Inr r" and "nodes_of tbl (innode st) \<noteq> []"
  shows "\<exists>out c t used.
           match_modes (nodes_of tbl (innode st)) modes
             (default_choice (nodes_of tbl (innode st)), used_modes st) = Inr ((out, c, t), used)
         \<and> state_of r = st\<lparr>innode := out, outnode := out,
                              components := components st @ [c],
                              thcomponents := thcomponents st @ [t],
                              used_modes := used,
                              count := count st + (if out = outnode st then 1 else 0)\<rparr>
         \<and> r = (if out = outnode st \<and> 3 \<le> count st then Break (state_of r)
                 else Continue (state_of r))"
proof (cases "match_modes (nodes_of tbl (innode st)) modes
                (default_choice (nodes_of tbl (innode st)), used_modes st)")
  case (Inl err)
  with assms show ?thesis by (simp add: body_def)
next
  case (Inr x)
  obtain out c t used where x: "x = ((out, c, t), used)"
    by (metis prod.exhaust)
  show ?thesis
  proof (cases "out = outnode st")
    case True
    with assms Inr x show ?thesis
      by (cases "3 \<le> count st") (auto simp: body_def Let_def)
  next
    case False
    with assms Inr x show ?thesis
      by (auto simp: body_def Let_def)
  qed
qed

lemma nodes_of_mem: "e \<in> set (nodes_of tbl n) \<Longrightarrow> e \<in> set tbl \<and> e_innode e = n"
  by (simp add: nodes_of_def)

lemma body_outnode:
  assumes b: "body tbl modes st = Inr r" and ne: "nodes_of tbl (innode st) \<noteq> []"
  shows "innode (state_of r) = outnode (state_of r) \<and>
         (outnode (state_of r) = - 2 \<or>
          (\<exists>e\<in>set tbl. e_innode e = innode st \<and> e_outnode e = outnode (state_of r)))"
proof -
  from body_Inr [OF b ne] obtain out c t used where
    m: "match_modes (nodes_of tbl (innode st)) modes
          (default_choice (nodes_of tbl (innode st)), used_modes st) = Inr ((out, c, t), used)" and
    s: "state_of r = st\<lparr>innode := out, outnode := out,
                              components := components st @ [c],
                              thcomponents := thcomponents st @ [t],
                              used_modes := used,
                              count := count st + (if out = outnode st then 1 else 0)\<rparr>"
    by blast
  from match_modes_result [OF m]
  have "(out, c, t) = default_choice (nodes_of tbl (innode st)) \<or>
        (\<exists>e\<in>set (nodes_of tbl (innode st)).
            (out, c, t) = (e_outnode e, Some (e_compname e), Some (e_thcompname e)))"
    by simp
  with default_choice_cases [of "nodes_of tbl (innode st)"]
  have "out = - 2 \<or> (\<exists>e\<in>set (nodes_of tbl (innode st)). out = e_outnode e)"
    by (metis prod.inject)
  then have "out = - 2 \<or> (\<exists>e\<in>set tbl. e_innode e = innode st \<and> e_outnode e = out)"
    using nodes_of_mem by blast
  with s show ?thesis by simp
qed

lemma match_modes_Cons:
  "match_modes nodes (m # ms) (ch, used) =
     (let index = filter (\<lambda>e. chararray_eq (e_keyword e) m) nodes
      in if index = [] then match_modes nodes ms (ch, used)
         else if 1 < length index then Inl (KeyError (length index) m)
         else match_modes nodes ms
                ((e_outnode (hd index), Some (e_compname (hd index)), Some (e_thcompname (hd index))),
                 insert m used))"
proof (cases "filter (\<lambda>e. chararray_eq (e_keyword e) m) nodes")
  case Nil
  then show ?thesis by (simp add: Let_def)
next
  case (Cons e es)
  then have "e \<in> set (filter (\<lambda>e. chararray_eq (e_keyword e) m) nodes)" by simp
  then have "list_ex (\<lambda>e. chararray_eq (e_keyword e) m) nodes"
    by (auto simp: list_ex_iff)
  with Cons show ?thesis by (cases es) (simp_all add: Let_def)
qed

lemma match_modes_no_match:
  "\<forall>m\<in>set modes. \<forall>e\<in>set nodes. \<not> chararray_eq (e_keyword e) m \<Longrightarrow>
     match_modes nodes modes acc = Inr acc"
proof (induction modes)
  case Nil
  then show ?case by simp
next
  case (Cons m ms)
  then show ?case by (cases acc) (simp add: list_ex_iff)
qed

lemma match_modes_append:
  "match_modes nodes (xs @ ys) acc =
     (case match_modes nodes xs acc of Inl err \<Rightarrow> Inl err | Inr acc' \<Rightarrow> match_modes nodes ys acc')"
proof (induction xs arbitrary: acc)
  case Nil
  then show ?case by simp
next
  case (Cons m ms)
  obtain ch used where acc: "acc = (ch, used)" by (cases acc)
  show ?case
    unfolding acc append_Cons match_modes_Cons Let_def
    by (simp add: Cons.IH del: match_modes.simps)
qed

lemma match_modes_unambiguous:
  "\<forall>m\<in>set modes. length (filter (\<lambda>e. chararray_eq (e_keyword e) m) nodes) \<le> 1 \<Longrightarrow>
     \<exists>acc'. match_modes nodes modes acc = Inr acc'"
proof (induction modes arbitrary: acc)
  case Nil
  then show ?case by simp
next
  case (Cons m ms)
  obtain ch used where acc: "acc = (ch, used)" by (cases acc)
  from Cons.prems have le: "\<not> 1 < length (filter (\<lambda>e. chararray_eq (e_keyword e) m) nodes)"
    and rest: "\<forall>m\<in>set ms. length (filter (\<lambda>e. chararray_eq (e_keyword e) m) nodes) \<le> 1"
    by auto
  show ?case
    unfolding acc match_modes_Cons Let_def
    using le Cons.IH [OF rest] by (simp del: match_modes.simps)
qed

lemma match_modes_ambiguous:
  assumes "modes = pre @ m # post"
    and "\<forall>m'\<in>set pre. length (filter (\<lambda>e. chararray_eq (e_keyword e) m') nodes) \<le> 1"
    and "1 < length (filter (\<lambda>e. chararray_eq (e_keyword e) m) nodes)"
  shows "match_modes nodes modes acc =
           Inl (KeyError (length (filter (\<lambda>e. chararray_eq (e_keyword e) m) nodes)) m)"
proof -
  from match_modes_unambiguous [OF assms(2)]
  obtain ch1 used1 where p: "match_modes nodes pre acc = Inr (ch1, used1)"
    by (metis prod.exhaust)
  from assms(3) have "filter (\<lambda>e. chararray_eq (e_keyword e) m) nodes \<noteq> []" by auto
  with assms(3) have "match_modes nodes (m # post) (ch1, used1) =
      Inl (KeyError (length (filter (\<lambda>e. chararray_eq (e_keyword e) m) nodes)) m)"
    unfolding match_modes_Cons Let_def by (simp del: match_modes.simps)
  with p show ?thesis unfolding assms(1) match_modes_append by simp
qed

lemma first_ambiguous:
  assumes "m \<in> set modes"
    and "1 < length (filter (\<lambda>e. chararray_eq (e_keyword e) m) nodes)"
  shows "\<exists>pre m' post. modes = pre @ m' # post
           \<and> (\<forall>x\<in>set pre. length (filter (\<lambda>e. chararray_eq (e_keyword e) x) nodes) \<le> 1)
           \<and> 1 < length (filter (\<lambda>e. chararray_eq (e_keyword e) m') nodes)"
proof -
  from assms have "\<exists>x\<in>set modes. 1 < length (filter (\<lambda>e. chararray_eq (e_keyword e) x) nodes)"
    by blast
  from split_list_first_prop [OF this]
  obtain pre m' post where "modes = pre @ m' # post"
    "1 < length (filter (\<lambda>e. chararray_eq (e_keyword e) m') nodes)"
    "\<forall>x\<in>set pre. \<not> 1 < length (filter (\<lambda>e. chararray_eq (e_keyword e) x) nodes)"
    by blast
  then show ?thesis by (auto simp: not_less)
qed

section \<open>Properties of the loop\<close>

lemma while_loop_terminates:
  fixes rank :: "int \<Rightarrow> nat"
  assumes rank: "\<forall>e\<in>set tbl. e_outnode e < 0 \<or> e_outnode e = e_innode e \<or>
                    rank (e_outnode e) < rank (e_innode e)"
  shows "\<exists>r. while_loop tbl modes st = Some r"
proof (induction st rule: wf_induct_rule
    [OF wf_inv_image [OF wf_lex_prod [OF wf_less_than wf_less_than],
       of "\<lambda>st. (rank (innode st) :: nat, (if innode st = outnode st then 0 else 1) + (4 - count st))"]])
  case (1 st)
  show ?case
  proof (cases "0 \<le> outnode st")
    case False
    then show ?thesis by (subst while_loop.simps) simp
  next
    case pos: True
    show ?thesis
    proof (cases "body tbl modes st")
      case (Inl err)
      with pos show ?thesis by (subst while_loop.simps) simp
    next
      case (Inr r)
      show ?thesis
      proof (cases r)
        case (Break st')
        with Inr pos show ?thesis by (subst while_loop.simps) simp
      next
        case (Continue st')
        with Inr pos have unf: "while_loop tbl modes st = while_loop tbl modes st'"
          by (subst while_loop.simps) simp
        from Inr Continue have ne: "nodes_of tbl (innode st) \<noteq> []"
          by (auto simp: body_def Let_def)
        from body_Inr [OF Inr ne] Continue
        have cnt: "count st' = count st + (if outnode st' = outnode st then 1 else 0)"
          and nb: "\<not> (outnode st' = outnode st \<and> 3 \<le> count st)"
          by (auto split: if_splits)
        from body_outnode [OF Inr ne] Continue
        have io: "innode st' = outnode st'"
          and src: "outnode st' = - 2 \<or>
            (\<exists>e\<in>set tbl. e_innode e = innode st \<and> e_outnode e = outnode st')"
          by simp_all
        show ?thesis
        proof (cases "outnode st' < 0")
          case True
          then have "while_loop tbl modes st' = Some (Inr st')"
            by (subst while_loop.simps) simp
          with unf show ?thesis by simp
        next
          case False
          with src rank have "outnode st' = innode st \<or> rank (outnode st') < rank (innode st)"
            by auto
          then have "(st', st) \<in> inv_image (less_than <*lex*> less_than)
             (\<lambda>st. (rank (innode st), (if innode st = outnode st then 0 else 1) + (4 - count st)))"
            using io cnt nb by (auto simp: inv_image_def)
          from "1.IH" [OF this] unf show ?thesis by simp
        qed
      qed
    qed
  qed
qed

lemma while_loop_step:
  "0 \<le> outnode st \<Longrightarrow> body tbl modes st = Inr (Continue st') \<Longrightarrow>
     while_loop tbl modes st = while_loop tbl modes st'"
  by (subst while_loop.simps) simp


lemma while_loop_raise:
  "0 \<le> outnode st \<Longrightarrow> body tbl modes st = Inl err \<Longrightarrow>
     while_loop tbl modes st = Some (Inl err)"
  by (subst while_loop.simps) simp

lemma while_loop_exit:
  "outnode st < 0 \<Longrightarrow> while_loop tbl modes st = Some (Inr st)"
  by (subst while_loop.simps) simp

lemma traversal_while_loop:
  "traversal tbl modes st0 outs st \<Longrightarrow> while_loop tbl modes st0 = while_loop tbl modes st"
  by (induction rule: traversal.induct) (simp_all add: while_loop_step)

lemma body_used_modes:
  assumes b: "body tbl modes st = Inr r"
  shows "used_modes st \<subseteq> used_modes (state_of r) \<and> used_modes (state_of r) \<subseteq> used_modes st \<union> set modes"
proof (cases "nodes_of tbl (innode st) = []")
  case True
  with b show ?thesis by (auto simp: body_def)
next
  case False
  from body_Inr [OF b False] obtain out c t used where
    m: "match_modes (nodes_of tbl (innode st)) modes
          (default_choice (nodes_of tbl (innode st)), used_modes st) = Inr ((out, c, t), used)" and
    s: "state_of r = st\<lparr>innode := out, outnode := out,
                              components := components st @ [c],
                              thcomponents := thcomponents st @ [t],
                              used_modes := used,
                              count := count st + (if out = outnode st then 1 else 0)\<rparr>"
    by blast
  from match_modes_result [OF m] s show ?thesis by simp
qed

lemma while_loop_used_modes:
  assumes "while_loop tbl modes st = Some r"
  shows "\<forall>st'. r = Inr st' \<longrightarrow> used_modes st' \<subseteq> used_modes st \<union> set modes"
proof (rule while_loop.raw_induct
    [where P = "\<lambda>tbl modes st r. \<forall>st'. r = Inr st' \<longrightarrow> used_modes st' \<subseteq> used_modes st \<union> set modes",
     OF _ assms])
  fix loop :: "edge list \<Rightarrow> string list \<Rightarrow> trav \<Rightarrow> (error + trav) option"
  fix tbl modes st r
  assume IH: "\<And>tbl modes st r. loop tbl modes st = Some r \<Longrightarrow>
           \<forall>st'. r = Inr st' \<longrightarrow> used_modes st' \<subseteq> used_modes st \<union> set modes"
  assume eq: "(if 0 \<le> outnode st
        then case body tbl modes st of Inl err \<Rightarrow> Some (Inl err)
             | Inr (Break st') \<Rightarrow> Some (Inr st')
             | Inr (Continue st') \<Rightarrow> loop tbl modes st'
        else Some (Inr st)) = Some r"
  show "\<forall>st'. r = Inr st' \<longrightarrow> used_modes st' \<subseteq> used_modes st \<union> set modes"
  proof (cases "0 \<le> outnode st")
    case False
    with eq show ?thesis by auto
  next
    case pos: True
    show ?thesis
    proof (cases "body tbl modes st")
      case (Inl err)
      with eq pos show ?thesis by auto
    next
      case (Inr x)
      note bx = body_used_modes [OF Inr]
      show ?thesis
      proof (cases x)
        case (Break s)
        with eq pos Inr bx show ?thesis by auto
      next
        case (Continue s)
        with eq pos Inr have "loop tbl modes s = Some r" by simp
        from IH [OF this] bx Continue show ?thesis by auto
      qed
    qed
  qed
qed

section \<open>Termination (C1)\<close>

lemma cycle_body:
  assumes "on_cycle st"
  shows "\<exists>st'. body cycle_graph [] st = Inr (Continue st') \<and> on_cycle st'"
  using assms
  by (auto simp: on_cycle_def body_def cycle_graph_def mk_edge_def nodes_of_def
      default_choice_def chararray_eq_def Let_def)

lemma cycle_never_returns:
  assumes "while_loop tbl modes st = Some r"
  shows "\<not> (tbl = cycle_graph \<and> modes = [] \<and> on_cycle st)"
proof (rule while_loop.raw_induct
    [where P = "\<lambda>tbl modes st r. \<not> (tbl = cycle_graph \<and> modes = [] \<and> on_cycle st)",
     OF _ assms])
  fix loop :: "edge list \<Rightarrow> string list \<Rightarrow> trav \<Rightarrow> (error + trav) option"
  fix tbl modes st r
  assume IH: "\<And>tbl modes st r. loop tbl modes st = Some r \<Longrightarrow>
           \<not> (tbl = cycle_graph \<and> modes = [] \<and> on_cycle st)"
  assume eq: "(if 0 \<le> outnode st
        then case body tbl modes st of Inl err \<Rightarrow> Some (Inl err)
             | Inr (Break st') \<Rightarrow> Some (Inr st')
             | Inr (Continue st') \<Rightarrow> loop tbl modes st'
        else Some (Inr st)) = Some r"
  show "\<not> (tbl = cycle_graph \<and> modes = [] \<and> on_cycle st)"
  proof
    assume a: "tbl = cycle_graph \<and> modes = [] \<and> on_cycle st"
    then have inv: "on_cycle st" by simp
    from cycle_body [OF inv] obtain st' where
      b: "body cycle_graph [] st = Inr (Continue st')" and inv': "on_cycle st'"
      by blast
    from inv have "0 \<le> outnode st" by (auto simp: on_cycle_def)
    with eq a b have "loop cycle_graph [] st' = Some r" by simp
    from IH [OF this] inv' show False by simp
  qed
qed

text \<open>
  C1, as stated, fails: on two nodes whose default edges lead to each other the
  \<^verbatim>\<open>outnode\<close> alternates between 2 and 1, never equals the previous one and is never
  negative, so no stop condition is ever met and \<^verbatim>\<open>GetComponentsFromGT\<close> does not return.
\<close>

theorem GetComponentsFromGT_cycle_diverges:
  "GetComponentsFromGT cycle_graph [] 1 = None"
proof (cases "while_loop cycle_graph [] (init_trav 1)")
  case None
  then show ?thesis by (simp add: GetComponentsFromGT_def)
next
  case (Some r)
  from cycle_never_returns [OF this] show ?thesis by (simp add: init_trav_def on_cycle_def)
qed

text \<open>
  C1, amended: when the edges between distinct nodes close no cycle, that is, some rank
  on the nodes is strictly decreased by every edge whose \<^verbatim>\<open>outnode\<close> is neither negative nor
  its own \<^verbatim>\<open>innode\<close>, then \<^verbatim>\<open>GetComponentsFromGT\<close> returns or raises for every mode list and
  every start node (self-loops are cut by the stall count).
\<close>

theorem GetComponentsFromGT_terminates:
  fixes rank :: "int \<Rightarrow> nat"
  assumes "\<forall>e\<in>set tbl. e_outnode e < 0 \<or> e_outnode e = e_innode e \<or>
             rank (e_outnode e) < rank (e_innode e)"
  shows "\<exists>r. GetComponentsFromGT tbl modes n = Some r"
proof -
  from while_loop_terminates [OF assms] obtain r where
    "while_loop tbl modes (init_trav n) = Some r" by blast
  then show ?thesis
    by (cases r) (simp_all add: GetComponentsFromGT_def)
qed

theorem GetComponentsFromGT_terminates_witness:
  "list_all (\<lambda>e. e_outnode e < 0 \<or> e_outnode e = e_innode e \<or>
       rank_of (e_outnode e) < rank_of (e_innode e)) self_loop_graph
   \<and> (\<exists>r. GetComponentsFromGT self_loop_graph [] 5 = Some r)"
proof -
  have h: "list_all (\<lambda>e. e_outnode e < 0 \<or> e_outnode e = e_innode e \<or>
       rank_of (e_outnode e) < rank_of (e_innode e)) self_loop_graph"
    by (simp add: self_loop_graph_def mk_edge_def rank_of_def)
  then have "\<forall>e\<in>set self_loop_graph. e_outnode e < 0 \<or> e_outnode e = e_innode e \<or>
       rank_of (e_outnode e) < rank_of (e_innode e)"
    by (simp add: list_all_iff)
  from GetComponentsFromGT_terminates [of self_loop_graph rank_of "[]" 5, OF this] h
  show ?thesis by simp
qed

section \<open>The scenario of the specification (C2)\<close>

text \<open>
  C2, as stated, fails: on the four-edge graph both walks end with \<^verbatim>\<open>outnode = -1\<close>, so the
  check after the loop raises \<^verbatim>\<open>ValueError("Incomplete obsmode ...")\<close> and nothing is returned.
\<close>

theorem scenario_raises_incomplete:
  "GetComponentsFromGT scenario_graph [''acs''] 1 = Some (Inl (ValueError_Incomplete [''acs'']))
   \<and> GetComponentsFromGT scenario_graph [] 1 = Some (Inl (ValueError_Incomplete []))"
  by code_simp

text \<open>
  C2, amended: when the two last edges lead to a node without rows (4 here) instead of
  to \<open>-1\<close>, the mode \<open>acs\<close> gives the optical components \<open>B, D\<close> and the empty mode list
  gives \<open>A, C\<close>, and both calls return.
\<close>

theorem scenario_open_components:
  "GetComponentsFromGT scenario_graph_open [''acs''] 1 =
     Some (Inr ([Some ''B'', Some ''D''], [Some ''tB'', Some ''tD'']))
   \<and> GetComponentsFromGT scenario_graph_open [] 1 =
     Some (Inr ([Some ''A'', Some ''C''], [Some ''tA'', Some ''tC'']))"
  by code_simp

section \<open>The checks after the loop (C3)\<close>

text \<open>
  C3: when the loop ends in state \<open>st\<close>, a negative \<^verbatim>\<open>outnode\<close> raises the incomplete-mode
  error first; otherwise the call raises the unused-keyword error with exactly
  \<open>set modes - used_modes st\<close> when that set is not empty, and returns the two accumulated
  lists when it is empty.
\<close>

theorem unused_keywords_checked_after_sentinel:
  assumes "while_loop tbl modes (init_trav n) = Some (Inr st)"
  shows "GetComponentsFromGT tbl modes n =
     (if outnode st < 0 then Some (Inl (ValueError_Incomplete modes))
      else if set modes - used_modes st \<noteq> {}
        then Some (Inl (ValueError_Unused (set modes - used_modes st)))
      else Some (Inr (components st, thcomponents st)))"
proof -
  from while_loop_used_modes [OF assms] have "used_modes st \<subseteq> set modes"
    by (simp add: init_trav_def)
  then have "set modes \<noteq> used_modes st \<longleftrightarrow> set modes - used_modes st \<noteq> {}" by auto
  with assms show ?thesis by (simp add: GetComponentsFromGT_def)
qed

theorem unused_keywords_checked_after_sentinel_witness:
  "while_loop scenario_graph_open [''acs'', ''bogus''] (init_trav 1) =
     Some (Inr \<lparr>innode = 4, outnode = 4, components = [Some ''B'', Some ''D''],
                thcomponents = [Some ''tB'', Some ''tD''], used_modes = {''acs''}, count = 0\<rparr>)
   \<and> GetComponentsFromGT scenario_graph_open [''acs'', ''bogus''] 1 =
       Some (Inl (ValueError_Unused {''bogus''}))"
proof -
  have h: "while_loop scenario_graph_open [''acs'', ''bogus''] (init_trav 1) =
     Some (Inr \<lparr>innode = 4, outnode = 4, components = [Some ''B'', Some ''D''],
                thcomponents = [Some ''tB'', Some ''tD''], used_modes = {''acs''}, count = 0\<rparr>)"
    by code_simp
  have "set [''acs'', ''bogus''] - {''acs''} = {''bogus''}" by auto
  with unused_keywords_checked_after_sentinel [OF h] h show ?thesis by simp
qed

section \<open>The stall count (C10)\<close>








section \<open>Ambiguous keywords (C5)\<close>

text \<open>
  C5: when the traversal is at a node (the loop is about to run its body in state \<open>st\<close>)
  and some supplied mode matches more than one row of that node, the step raises
  \<^verbatim>\<open>KeyError\<close> and so does the call: for the first mode of the list that matches more than
  one row, with the number of rows it matches. No row is picked.
\<close>

theorem ambiguous_keyword_raises:
  assumes "traversal tbl modes (init_trav n) outs st"
    and "0 \<le> outnode st"
    and "m \<in> set modes"
    and "1 < length (filter (\<lambda>e. chararray_eq (e_keyword e) m) (nodes_of tbl (innode st)))"
  shows "\<exists>pre m' post. modes = pre @ m' # post
       \<and> (\<forall>x\<in>set pre. length (filter (\<lambda>e. chararray_eq (e_keyword e) x)
                                (nodes_of tbl (innode st))) \<le> 1)
       \<and> 1 < length (filter (\<lambda>e. chararray_eq (e_keyword e) m') (nodes_of tbl (innode st)))
       \<and> body tbl modes st =
           Inl (KeyError (length (filter (\<lambda>e. chararray_eq (e_keyword e) m')
                                    (nodes_of tbl (innode st)))) m')
       \<and> GetComponentsFromGT tbl modes n =
           Some (Inl (KeyError (length (filter (\<lambda>e. chararray_eq (e_keyword e) m')
                                          (nodes_of tbl (innode st)))) m'))"
proof -
  let ?nodes = "nodes_of tbl (innode st)"
  from first_ambiguous [OF assms(3,4)] obtain pre m' post where
    sp: "modes = pre @ m' # post" and
    un: "\<forall>x\<in>set pre. length (filter (\<lambda>e. chararray_eq (e_keyword e) x) ?nodes) \<le> 1" and
    am: "1 < length (filter (\<lambda>e. chararray_eq (e_keyword e) m') ?nodes)"
    by blast
  let ?err = "KeyError (length (filter (\<lambda>e. chararray_eq (e_keyword e) m') ?nodes)) m'"
  from am have ne: "?nodes \<noteq> []" by auto
  from match_modes_ambiguous [OF sp un am]
  have "match_modes ?nodes modes (default_choice ?nodes, used_modes st) = Inl ?err" .
  with ne have b: "body tbl modes st = Inl ?err" by (simp add: body_def)
  from traversal_while_loop [OF assms(1)] while_loop_raise [OF assms(2) b]
  have "while_loop tbl modes (init_trav n) = Some (Inl ?err)" by simp
  then have "GetComponentsFromGT tbl modes n = Some (Inl ?err)"
    by (simp add: GetComponentsFromGT_def)
  with sp un am b show ?thesis by blast
qed

lemma ambiguous_graph_traversal:
  "traversal ambiguous_graph [''wfc '', ''wfc''] (init_trav 1) [2]
     \<lparr>innode = 2, outnode = 2, components = [Some ''A''], thcomponents = [Some ''tA''],
      used_modes = {}, count = 0\<rparr>"
proof -
  have b: "body ambiguous_graph [''wfc '', ''wfc''] (init_trav 1) =
      Inr (Continue \<lparr>innode = 2, outnode = 2, components = [Some ''A''],
                     thcomponents = [Some ''tA''], used_modes = {}, count = 0\<rparr>)"
    by code_simp
  have "0 \<le> outnode (init_trav 1)" by (simp add: init_trav_def)
  from traversal_step [OF traversal_start this b] show ?thesis by simp
qed

theorem ambiguous_keyword_raises_witness:
  "GetComponentsFromGT ambiguous_graph [''wfc '', ''wfc''] 1 = Some (Inl (KeyError 2 ''wfc ''))"
proof -
  let ?st = "\<lparr>innode = 2, outnode = 2, components = [Some ''A''], thcomponents = [Some ''tA''],
      used_modes = {}, count = 0\<rparr>"
  let ?nodes = "nodes_of ambiguous_graph (innode ?st)"
  have h2: "0 \<le> outnode ?st" by simp
  have h3: "''wfc'' \<in> set [''wfc '', ''wfc'']" by simp
  have h4: "1 < length (filter (\<lambda>e. chararray_eq (e_keyword e) ''wfc'') ?nodes)"
    by code_simp
  have first: "length (filter (\<lambda>e. chararray_eq (e_keyword e) ''wfc '') ?nodes) = 2"
    by code_simp
  from ambiguous_keyword_raises [OF ambiguous_graph_traversal h2 h3 h4]
  obtain pre m' post where
    sp: "[''wfc '', ''wfc''] = pre @ m' # post" and
    un: "\<forall>x\<in>set pre. length (filter (\<lambda>e. chararray_eq (e_keyword e) x) ?nodes) \<le> 1" and
    res: "GetComponentsFromGT ambiguous_graph [''wfc '', ''wfc''] 1 =
           Some (Inl (KeyError (length (filter (\<lambda>e. chararray_eq (e_keyword e) m') ?nodes)) m'))"
    by blast
  have "pre = []"
  proof (cases pre)
    case Nil
    then show ?thesis .
  next
    case (Cons x xs)
    with sp have "x = ''wfc ''" by simp
    with Cons un first show ?thesis by simp
  qed
  with sp have "m' = ''wfc ''" by simp
  with res first show ?thesis by simp
qed

section \<open>Several matching modes (C4)\<close>

text \<open>
  C4: let \<open>m\<close> be the last of the supplied modes, in the order of the mode list, that
  matches a row of the current node, let \<open>e\<close> be the one row it matches, and let no
  earlier mode match more than one row. Then the step takes \<^verbatim>\<open>outnode\<close>, component and
  thermal component from \<open>e\<close>, whatever rows the earlier modes matched and whether or not
  the node has a default row.
\<close>

theorem last_matching_mode_wins:
  assumes "modes = pre @ m # post"
    and "filter (\<lambda>e. chararray_eq (e_keyword e) m) (nodes_of tbl (innode st)) = [e]"
    and "\<forall>m'\<in>set post. \<forall>e'\<in>set (nodes_of tbl (innode st)). \<not> chararray_eq (e_keyword e') m'"
    and "\<forall>m'\<in>set pre. length (filter (\<lambda>e. chararray_eq (e_keyword e) m')
                                  (nodes_of tbl (innode st))) \<le> 1"
  shows "\<exists>r. body tbl modes st = Inr r \<and>
           innode (state_of r) = e_outnode e \<and> outnode (state_of r) = e_outnode e \<and>
           components (state_of r) = components st @ [Some (e_compname e)] \<and>
           thcomponents (state_of r) = thcomponents st @ [Some (e_thcompname e)] \<and>
           m \<in> used_modes (state_of r)"
proof -
  let ?nodes = "nodes_of tbl (innode st)"
  let ?ch = "(e_outnode e, Some (e_compname e), Some (e_thcompname e))"
  from filter_single_mem [OF assms(2)] have ne: "?nodes \<noteq> []" by auto
  from match_modes_unambiguous [OF assms(4)]
  obtain ch1 used1 where
    p: "match_modes ?nodes pre (default_choice ?nodes, used_modes st) = Inr (ch1, used1)"
    by (metis prod.exhaust)
  from assms(2) have one: "match_modes ?nodes (m # post) (ch1, used1) =
      match_modes ?nodes post (?ch, insert m used1)"
    unfolding match_modes_Cons Let_def by (simp del: match_modes.simps)
  from match_modes_no_match [OF assms(3)]
  have "match_modes ?nodes post (?ch, insert m used1) = Inr (?ch, insert m used1)" .
  with one p have mm: "match_modes ?nodes modes (default_choice ?nodes, used_modes st) =
      Inr (?ch, insert m used1)"
    unfolding assms(1) match_modes_append by simp
  show ?thesis
  proof (cases "e_outnode e = outnode st")
    case True
    with ne mm show ?thesis
      by (cases "3 < count st + 1") (simp_all add: body_def Let_def)
  next
    case False
    with ne mm show ?thesis by (simp add: body_def Let_def)
  qed
qed

theorem last_matching_mode_wins_witness:
  "(\<exists>r. body override_graph [''hrc'', ''acs ''] (init_trav 1) = Inr r \<and>
       innode (state_of r) = 3 \<and> outnode (state_of r) = 3 \<and>
       components (state_of r) = [Some ''B''] \<and> thcomponents (state_of r) = [Some ''tB''] \<and>
       ''acs '' \<in> used_modes (state_of r))"
proof -
  have h1: "[''hrc'', ''acs ''] = [''hrc''] @ ''acs '' # []" by simp
  have h2: "filter (\<lambda>e. chararray_eq (e_keyword e) ''acs '')
              (nodes_of override_graph (innode (init_trav 1))) =
            [mk_edge 1 ''acs'' 3 ''B'' ''tB'']"
    by code_simp
  have h3: "\<forall>m'\<in>set []. \<forall>e'\<in>set (nodes_of override_graph (innode (init_trav 1))).
              \<not> chararray_eq (e_keyword e') m'"
    by simp
  have h4: "\<forall>m'\<in>set [''hrc''].
      length (filter (\<lambda>e. chararray_eq (e_keyword e) m')
                (nodes_of override_graph (innode (init_trav 1)))) \<le> 1"
    by code_simp
  from last_matching_mode_wins [OF h1 h2 h3 h4]
  show ?thesis by (simp add: mk_edge_def init_trav_def)
qed

section \<open>A node without default and without match (C6)\<close>

text \<open>
  C6, as stated, fails at a node that has no row at all: its set of rows holds no
  default row and no row matching a mode, yet the loop ends there without an error. With
  no mode the call returns what it has accumulated, and with a mode that no row matched
  it raises the unused-keyword error, not the incomplete-mode error.
\<close>

theorem node_without_rows_is_not_incomplete:
  "nodes_of open_end_graph 2 = []
   \<and> GetComponentsFromGT open_end_graph [] 1 = Some (Inr ([Some ''A''], [Some ''tA'']))
   \<and> GetComponentsFromGT open_end_graph [''acs''] 1 = Some (Inl (ValueError_Unused {''acs''}))"
  by code_simp

text \<open>
  C6, amended: when the traversal is at a node that has at least one row, none of its
  rows with the keyword \<open>default\<close> and none matching a supplied mode, the step sets
  \<^verbatim>\<open>outnode = -2\<close>, appends \<^verbatim>\<open>None\<close> to both lists and goes on to the loop test, which
  ends the loop, and the call raises the incomplete-mode error with the mode list it was
  given.
\<close>

theorem dead_end_raises_incomplete:
  assumes "traversal tbl modes (init_trav n) outs st"
    and "0 \<le> outnode st"
    and "nodes_of tbl (innode st) \<noteq> []"
    and "\<forall>e\<in>set (nodes_of tbl (innode st)).
           \<not> chararray_eq (e_keyword e) ''default'' \<and>
           (\<forall>m\<in>set modes. \<not> chararray_eq (e_keyword e) m)"
  shows "body tbl modes st =
           Inr (Continue (st\<lparr>innode := - 2, outnode := - 2,
                              components := components st @ [None],
                              thcomponents := thcomponents st @ [None]\<rparr>))
         \<and> GetComponentsFromGT tbl modes n = Some (Inl (ValueError_Incomplete modes))"
proof -
  let ?nodes = "nodes_of tbl (innode st)"
  let ?st' = "st\<lparr>innode := - 2, outnode := - 2, components := components st @ [None],
                  thcomponents := thcomponents st @ [None]\<rparr>"
  from assms(4) have "filter (\<lambda>e. chararray_eq (e_keyword e) ''default'') ?nodes = []"
    by (simp add: filter_empty_conv)
  then have d: "default_choice ?nodes = (- 2, None, None)"
    by (simp add: default_choice_def)
  from assms(4) have "\<forall>m\<in>set modes. \<forall>e\<in>set ?nodes. \<not> chararray_eq (e_keyword e) m" by blast
  from match_modes_no_match [OF this]
  have m: "match_modes ?nodes modes (default_choice ?nodes, used_modes st) =
             Inr ((- 2, None, None), used_modes st)"
    by (simp add: d)
  from assms(2) have "- 2 \<noteq> outnode st" by simp
  with assms(3) m have b: "body tbl modes st = Inr (Continue ?st')"
    by (simp add: body_def Let_def)
  have "while_loop tbl modes ?st' = Some (Inr ?st')"
    by (rule while_loop_exit) simp
  with traversal_while_loop [OF assms(1)] while_loop_step [OF assms(2) b]
  have "while_loop tbl modes (init_trav n) = Some (Inr ?st')" by simp
  then have "GetComponentsFromGT tbl modes n = Some (Inl (ValueError_Incomplete modes))"
    by (simp add: GetComponentsFromGT_def)
  with b show ?thesis by simp
qed

lemma dead_end_graph_traversal:
  "traversal dead_end_graph [''acs''] (init_trav 1) [2]
     \<lparr>innode = 2, outnode = 2, components = [Some ''A''], thcomponents = [Some ''tA''],
      used_modes = {}, count = 0\<rparr>"
proof -
  have b: "body dead_end_graph [''acs''] (init_trav 1) =
      Inr (Continue \<lparr>innode = 2, outnode = 2, components = [Some ''A''],
                     thcomponents = [Some ''tA''], used_modes = {}, count = 0\<rparr>)"
    by code_simp
  have "0 \<le> outnode (init_trav 1)" by (simp add: init_trav_def)
  from traversal_step [OF traversal_start this b] show ?thesis by simp
qed

theorem dead_end_raises_incomplete_witness:
  "body dead_end_graph [''acs'']
     \<lparr>innode = 2, outnode = 2, components = [Some ''A''], thcomponents = [Some ''tA''],
      used_modes = {}, count = 0\<rparr> =
     Inr (Continue \<lparr>innode = - 2, outnode = - 2, components = [Some ''A'', None],
                    thcomponents = [Some ''tA'', None], used_modes = {}, count = 0\<rparr>)
   \<and> GetComponentsFromGT dead_end_graph [''acs''] 1 = Some (Inl (ValueError_Incomplete [''acs'']))"
proof -
  let ?st = "\<lparr>innode = 2, outnode = 2, components = [Some ''A''], thcomponents = [Some ''tA''],
      used_modes = {}, count = 0\<rparr>"
  have h2: "0 \<le> outnode ?st" by simp
  have h3: "nodes_of dead_end_graph (innode ?st) \<noteq> []" by code_simp
  have h4: "\<forall>e\<in>set (nodes_of dead_end_graph (innode ?st)).
              \<not> chararray_eq (e_keyword e) ''default'' \<and>
              (\<forall>m\<in>set [''acs'']. \<not> chararray_eq (e_keyword e) m)"
    by code_simp
  from dead_end_raises_incomplete [OF dead_end_graph_traversal h2 h3 h4]
  show ?thesis by simp
qed

section \<open>Several default rows (C9)\<close>

lemma filter_first:
  assumes "\<forall>x\<in>set pre. \<not> P x" and "P d"
  shows "filter P (pre @ d # post) = d # filter P post"
  using assms by (simp add: filter_empty_conv)

text \<open>
  C9: let \<open>d\<close> be the first row of the table that leaves the current node with the keyword
  \<open>default\<close>, another such row following it, and let no supplied mode match a row of that
  node. Then the step raises nothing and takes \<^verbatim>\<open>outnode\<close>, component and thermal
  component from \<open>d\<close>; no mode is recorded as used.
\<close>

theorem first_default_row_used:
  assumes "tbl = pre @ d # post"
    and "e_innode d = innode st" and "chararray_eq (e_keyword d) ''default''"
    and "\<forall>e\<in>set pre. \<not> (e_innode e = innode st \<and> chararray_eq (e_keyword e) ''default'')"
    and "\<exists>e\<in>set post. e_innode e = innode st \<and> chararray_eq (e_keyword e) ''default''"
    and "\<forall>e\<in>set tbl. e_innode e = innode st \<longrightarrow>
           (\<forall>m\<in>set modes. \<not> chararray_eq (e_keyword e) m)"
  shows "\<exists>r. body tbl modes st = Inr r \<and>
           state_of r = st\<lparr>innode := e_outnode d, outnode := e_outnode d,
                            components := components st @ [Some (e_compname d)],
                            thcomponents := thcomponents st @ [Some (e_thcompname d)],
                            used_modes := used_modes st,
                            count := count st + (if e_outnode d = outnode st then 1 else 0)\<rparr>"
proof -
  let ?nodes = "nodes_of tbl (innode st)"
  let ?P = "\<lambda>e. e_innode e = innode st \<and> chararray_eq (e_keyword e) ''default''"
  have "filter (\<lambda>e. chararray_eq (e_keyword e) ''default'') ?nodes = filter ?P tbl"
    by (simp add: nodes_of_def conj_commute)
  also from assms(2,3,4) have "\<dots> = d # filter ?P post"
    unfolding assms(1) by (intro filter_first) simp_all
  finally have d: "default_choice ?nodes = (e_outnode d, Some (e_compname d), Some (e_thcompname d))"
    by (simp add: default_choice_def)
  from assms(1,2) have ne: "?nodes \<noteq> []"
    by (auto simp: nodes_of_def filter_empty_conv)
  from assms(6) have "\<forall>m\<in>set modes. \<forall>e\<in>set ?nodes. \<not> chararray_eq (e_keyword e) m"
    by (auto simp: nodes_of_def)
  from match_modes_no_match [OF this]
  have m: "match_modes ?nodes modes (default_choice ?nodes, used_modes st) =
             Inr ((e_outnode d, Some (e_compname d), Some (e_thcompname d)), used_modes st)"
    by (simp add: d)
  show ?thesis
  proof (cases "e_outnode d = outnode st")
    case True
    with ne m show ?thesis
      by (cases "3 < count st + 1") (simp_all add: body_def Let_def)
  next
    case False
    with ne m show ?thesis by (simp add: body_def Let_def)
  qed
qed

theorem first_default_row_used_witness:
  "map_sum id state_of (body two_defaults_graph [''hrc ''] (init_trav 1)) =
     Inr \<lparr>innode = 2, outnode = 2, components = [Some ''A''],
          thcomponents = [Some ''tA''], used_modes = {}, count = 0\<rparr>"
proof -
  have h1: "two_defaults_graph =
      [mk_edge 1 ''acs'' 5 ''X'' ''tX''] @ mk_edge 1 ''default'' 2 ''A'' ''tA'' #
      [mk_edge 1 ''default'' 3 ''B'' ''tB'']"
    by (simp add: two_defaults_graph_def)
  have h2: "e_innode (mk_edge 1 ''default'' 2 ''A'' ''tA'') = innode (init_trav 1)"
    by (simp add: mk_edge_def init_trav_def)
  have h3: "chararray_eq (e_keyword (mk_edge 1 ''default'' 2 ''A'' ''tA'')) ''default''"
    by code_simp
  have h4: "\<forall>e\<in>set [mk_edge 1 ''acs'' 5 ''X'' ''tX''].
      \<not> (e_innode e = innode (init_trav 1) \<and> chararray_eq (e_keyword e) ''default'')"
    by code_simp
  have h5: "\<exists>e\<in>set [mk_edge 1 ''default'' 3 ''B'' ''tB''].
      e_innode e = innode (init_trav 1) \<and> chararray_eq (e_keyword e) ''default''"
    by code_simp
  have h6: "\<forall>e\<in>set two_defaults_graph. e_innode e = innode (init_trav 1) \<longrightarrow>
      (\<forall>m\<in>set [''hrc '']. \<not> chararray_eq (e_keyword e) m)"
    by code_simp
  from first_default_row_used [OF h1 h2 h3 h4 h5 h6]
  obtain r where r: "body two_defaults_graph [''hrc ''] (init_trav 1) = Inr r"
    "state_of r = \<lparr>innode = 2, outnode = 2, components = [Some ''A''],
                    thcomponents = [Some ''tA''], used_modes = {}, count = 0\<rparr>"
    by (auto simp: mk_edge_def init_trav_def)
  then show ?thesis by simp
qed

section \<open>Letter case of keywords (C7)\<close>

lemma lower_char_idem: "lower_char (lower_char c) = lower_char c"
proof (cases "(65::nat) \<le> of_char c \<and> of_char c \<le> (90::nat)")
  case True
  then have "(of_char c + 32 :: nat) mod 256 = of_char c + 32" by simp
  then have "(of_char (char_of (of_char c + (32::nat))) :: nat) = of_char c + 32"
    by (simp add: of_char_of)
  with True show ?thesis by (simp add: lower_char_def)
next
  case False
  then have "lower_char c = c" unfolding lower_char_def by (simp only: if_False)
  then show ?thesis by simp
qed

lemma lower_idem: "lower (lower s) = lower s"
  by (simp add: lower_def lower_char_idem)

lemma is_space_lower_char: "is_space (lower_char c) = is_space c"
proof (cases "(65::nat) \<le> of_char c \<and> of_char c \<le> (90::nat)")
  case True
  then have "(of_char c + 32 :: nat) mod 256 = of_char c + 32" by simp
  then have "(of_char (char_of (of_char c + (32::nat))) :: nat) = of_char c + 32"
    by (simp add: of_char_of)
  with True show ?thesis by (simp add: lower_char_def is_space_def)
next
  case False
  then have "lower_char c = c" unfolding lower_char_def by (simp only: if_False)
  then show ?thesis by simp
qed

lemma rstrip_lower: "rstrip (lower s) = lower (rstrip s)"
proof -
  have "is_space \<circ> lower_char = is_space"
    by (rule ext) (simp add: is_space_lower_char)
  then show ?thesis
    by (simp add: rstrip_def lower_def rev_map dropWhile_map)
qed

lemma GraphTable_init_match:
  assumes "GraphTable_init (Some f) rows = Inr tbl"
  shows "(\<exists>e\<in>set (nodes_of tbl n). chararray_eq (e_keyword e) m) \<longleftrightarrow>
           (\<exists>r\<in>set rows. e_innode r = n \<and> lower (rstrip (e_keyword r)) = rstrip m)"
proof -
  from assms have tbl: "tbl = map (\<lambda>r. r\<lparr>e_keyword := lower (e_keyword r)\<rparr>) rows"
    by (simp add: GraphTable_init_def)
  show ?thesis
    unfolding tbl nodes_of_def by (auto simp: chararray_eq_def rstrip_lower)
qed

lemma match_modes_single:
  "match_modes nodes [m] (ch, {}) = Inr (ch, {}) \<longleftrightarrow>
     \<not> (\<exists>e\<in>set nodes. chararray_eq (e_keyword e) m)"
proof (cases "filter (\<lambda>e. chararray_eq (e_keyword e) m) nodes")
  case Nil
  then have "\<not> (\<exists>e\<in>set nodes. chararray_eq (e_keyword e) m)"
    by (simp add: filter_empty_conv)
  with Nil show ?thesis
    unfolding match_modes_Cons Let_def by (simp del: match_modes.simps) simp
next
  case (Cons e es)
  then have "e \<in> set (filter (\<lambda>e. chararray_eq (e_keyword e) m) nodes)" by simp
  then have ex: "\<exists>e\<in>set nodes. chararray_eq (e_keyword e) m" by auto
  from Cons have "match_modes nodes [m] (ch, {}) \<noteq> Inr (ch, {})"
    unfolding match_modes_Cons Let_def by (cases es) (simp_all del: match_modes.simps, simp_all)
  with ex show ?thesis by simp
qed

text \<open>
  C7, as stated, fails for the mode tokens: only the keywords of the table are forced to
  lower case, the modes are compared as they are passed in. The file keyword \<open>ACS\<close> is
  matched by the mode \<open>acs\<close> and not by the mode \<open>ACS\<close>, for which the call raises the
  incomplete-mode error.
\<close>

theorem uppercase_mode_not_matched:
  "GraphTable_init (Some ''graph.fits'') [mk_edge 1 ''ACS'' 2 ''B'' ''tB''] =
     Inr [mk_edge 1 ''acs'' 2 ''B'' ''tB'']
   \<and> GetComponentsFromGT [mk_edge 1 ''acs'' 2 ''B'' ''tB''] [''acs''] 1 =
       Some (Inr ([Some ''B''], [Some ''tB'']))
   \<and> GetComponentsFromGT [mk_edge 1 ''acs'' 2 ''B'' ''tB''] [''ACS''] 1 =
       Some (Inl (ValueError_Incomplete [''ACS'']))"
  by code_simp

text \<open>
  C7, amended: the comparison is insensitive to letter case on the side of the table
  only. The keywords are forced to lower case once, at construction, and the step
  compares each mode with them as it was passed in, white space at the end aside. So,
  for a table built from \<open>rows\<close>: a mode in lower case is matched in a step at node \<open>n\<close>
  exactly when some row of \<open>n\<close> has, in whatever letter case the file writes it, that
  keyword; modes with an upper-case letter match no row in any step; and a file that
  writes the keywords in another letter case gives the same result of
  \<^verbatim>\<open>GetComponentsFromGT\<close> for every mode list and start node.
\<close>

theorem keyword_case_normalised_at_load:
  assumes "GraphTable_init (Some f) rows = Inr tbl"
  shows "(lower (rstrip m) = rstrip m \<longrightarrow>
            (match_modes (nodes_of tbl n) [m] (ch, {}) \<noteq> Inr (ch, {}) \<longleftrightarrow>
             (\<exists>r\<in>set rows. e_innode r = n \<and>
                lower (rstrip (e_keyword r)) = lower (rstrip m))))
       \<and> ((\<forall>x\<in>set modes. lower (rstrip x) \<noteq> rstrip x) \<longrightarrow>
            match_modes (nodes_of tbl n) modes acc = Inr acc)
       \<and> ((\<forall>r\<in>set rows. lower (g r) = lower (e_keyword r)) \<longrightarrow>
            (\<exists>tbl'. GraphTable_init (Some f') (map (\<lambda>r. r\<lparr>e_keyword := g r\<rparr>) rows) = Inr tbl'
               \<and> GetComponentsFromGT tbl' modes n = GetComponentsFromGT tbl modes n))"
proof -
  note gm = GraphTable_init_match [OF assms]
  have a: "lower (rstrip m) = rstrip m \<longrightarrow>
            (match_modes (nodes_of tbl n) [m] (ch, {}) \<noteq> Inr (ch, {}) \<longleftrightarrow>
             (\<exists>r\<in>set rows. e_innode r = n \<and>
                lower (rstrip (e_keyword r)) = lower (rstrip m)))"
    using gm [of n m] match_modes_single [of "nodes_of tbl n" m ch] by simp
  have b: "(\<forall>x\<in>set modes. lower (rstrip x) \<noteq> rstrip x) \<longrightarrow>
            match_modes (nodes_of tbl n) modes acc = Inr acc"
  proof
    assume up: "\<forall>x\<in>set modes. lower (rstrip x) \<noteq> rstrip x"
    have "\<forall>x\<in>set modes. \<forall>e\<in>set (nodes_of tbl n). \<not> chararray_eq (e_keyword e) x"
    proof (intro ballI notI)
      fix x e
      assume x: "x \<in> set modes" and e: "e \<in> set (nodes_of tbl n)"
        and eq: "chararray_eq (e_keyword e) x"
      from e eq gm [of n x]
      have "\<exists>r\<in>set rows. e_innode r = n \<and> lower (rstrip (e_keyword r)) = rstrip x"
        by blast
      then obtain r :: edge where "lower (rstrip (e_keyword r)) = rstrip x" by blast
      then have "lower (rstrip x) = lower (lower (rstrip (e_keyword r)))" by simp
      also have "\<dots> = lower (rstrip (e_keyword r))" by (rule lower_idem)
      also have "\<dots> = rstrip x" by fact
      finally show False using up x by blast
    qed
    then show "match_modes (nodes_of tbl n) modes acc = Inr acc"
      by (rule match_modes_no_match)
  qed
  have c: "(\<forall>r\<in>set rows. lower (g r) = lower (e_keyword r)) \<longrightarrow>
            (\<exists>tbl'. GraphTable_init (Some f') (map (\<lambda>r. r\<lparr>e_keyword := g r\<rparr>) rows) = Inr tbl'
               \<and> GetComponentsFromGT tbl' modes n = GetComponentsFromGT tbl modes n)"
  proof
    assume g: "\<forall>r\<in>set rows. lower (g r) = lower (e_keyword r)"
    from assms have tbl: "tbl = map (\<lambda>r. r\<lparr>e_keyword := lower (e_keyword r)\<rparr>) rows"
      by (simp add: GraphTable_init_def)
    from g have "map (\<lambda>r. r\<lparr>e_keyword := lower (g r)\<rparr>) rows =
        map (\<lambda>r. r\<lparr>e_keyword := lower (e_keyword r)\<rparr>) rows"
      by simp
    then have "GraphTable_init (Some f') (map (\<lambda>r. r\<lparr>e_keyword := g r\<rparr>) rows) = Inr tbl"
      by (simp add: GraphTable_init_def tbl comp_def)
    then show "\<exists>tbl'. GraphTable_init (Some f') (map (\<lambda>r. r\<lparr>e_keyword := g r\<rparr>) rows) = Inr tbl'
               \<and> GetComponentsFromGT tbl' modes n = GetComponentsFromGT tbl modes n"
      by simp
  qed
  from a b c show ?thesis by blast
qed

theorem keyword_case_normalised_at_load_witness:
  "match_modes (nodes_of [mk_edge 1 ''acs'' 2 ''B'' ''tB''] 1) [''acs ''] ((- 2, None, None), {})
     \<noteq> Inr ((- 2, None, None), {})
   \<and> match_modes (nodes_of [mk_edge 1 ''acs'' 2 ''B'' ''tB''] 1) [''ACS''] ((- 2, None, None), {})
     = Inr ((- 2, None, None), {})
   \<and> (\<exists>tbl'. GraphTable_init (Some ''other.fits'')
                (map (\<lambda>r. r\<lparr>e_keyword := ''Acs''\<rparr>) [mk_edge 1 ''ACS'' 2 ''B'' ''tB'']) = Inr tbl'
        \<and> GetComponentsFromGT tbl' [''acs ''] 1 =
          GetComponentsFromGT [mk_edge 1 ''acs'' 2 ''B'' ''tB''] [''acs ''] 1)"
proof -
  let ?rows = "[mk_edge 1 ''ACS'' 2 ''B'' ''tB'']"
  have h: "GraphTable_init (Some ''graph.fits'') ?rows = Inr [mk_edge 1 ''acs'' 2 ''B'' ''tB'']"
    by code_simp
  have l1: "lower (rstrip ''acs '') = rstrip ''acs ''" by code_simp
  have r1: "\<exists>r\<in>set ?rows. e_innode r = 1 \<and> lower (rstrip (e_keyword r)) = lower (rstrip ''acs '')"
    by code_simp
  have l2: "\<forall>x\<in>set [''ACS'']. lower (rstrip x) \<noteq> rstrip x" by code_simp
  have l3: "\<forall>r\<in>set ?rows. lower ((\<lambda>r. ''Acs'') r) = lower (e_keyword r)" by code_simp
  from keyword_case_normalised_at_load
    [OF h, where m = "''acs ''" and n = 1 and ch = "(- 2, None, None)"] l1 r1
  have a: "match_modes (nodes_of [mk_edge 1 ''acs'' 2 ''B'' ''tB''] 1) [''acs '']
             ((- 2, None, None), {}) \<noteq> Inr ((- 2, None, None), {})"
    by blast
  from keyword_case_normalised_at_load
    [OF h, where n = 1 and modes = "[''ACS'']" and acc = "((- 2, None, None), {})"] l2
  have b: "match_modes (nodes_of [mk_edge 1 ''acs'' 2 ''B'' ''tB''] 1) [''ACS'']
             ((- 2, None, None), {}) = Inr ((- 2, None, None), {})"
    by blast
  from keyword_case_normalised_at_load
    [OF h, where modes = "[''acs '']" and g = "\<lambda>r. ''Acs''" and f' = "''other.fits''"
       and n = 1] l3
  have c: "\<exists>tbl'. GraphTable_init (Some ''other.fits'')
                (map (\<lambda>r. r\<lparr>e_keyword := ''Acs''\<rparr>) ?rows) = Inr tbl'
        \<and> GetComponentsFromGT tbl' [''acs ''] 1 =
          GetComponentsFromGT [mk_edge 1 ''acs'' 2 ''B'' ''tB''] [''acs ''] 1"
    by blast
  from a b c show ?thesis by blast
qed

end
